theory Spec2Isabelle
  imports Main "HOL-Library.Word" "HOL-Library.Log_Nat"
begin

unbundle bit_operations_syntax

section \<open>Bytes, pixels and decoded images\<close>

text \<open>
  The Go sources keep every raster as a flat \<^verbatim>\<open>[]byte\<close> of RGBA8 pixels in row-major order.
  A \<^verbatim>\<open>[4]byte\<close> pixel is a 4-tuple. \<^verbatim>\<open>ImageData\<close> is the struct of
  \<^verbatim>\<open>internal/server/server.go\<close> (package stitcher); \<^verbatim>\<open>pkg/tile/types.go\<close> declares the same
  struct with capitalised field names. Go's \<^verbatim>\<open>int\<close> is modelled by \<^typ>\<open>int\<close>.
\<close>

type_synonym byte = "8 word"
type_synonym uint32 = "32 word"
type_synonym pixel = "byte \<times> byte \<times> byte \<times> byte"

record ImageData =
  buf :: "byte list"
  width :: int
  height :: int
  depth :: int

section \<open>Binary64 arithmetic\<close>

text \<open>
  \<^verbatim>\<open>alphaBlend\<close> computes in \<^verbatim>\<open>float64\<close>. A finite binary64 value is a rational number, and
  each of \<^verbatim>\<open>+ - * /\<close> returns the exact result rounded to 53 significant bits, ties to even.
  \<open>f64\<close> is that rounding; the exponent range is left unbounded, which is exact as long as
  no intermediate value overflows or becomes subnormal (in \<^verbatim>\<open>alphaBlend\<close> every intermediate value
  is \<open>0\<close> or lies between \<open>2\<^sup>-\<^sup>3\<^sup>0\<close> and \<open>2\<^sup>9\<close>). Every operation is rounded on its own: no
  multiplication is fused with the addition that follows it.

  \<open>ilog2 x\<close> is the binary exponent of \<open>x\<close>: \<open>2\<^sup>e \<le> \<bar>x\<bar> < 2\<^sup>e\<^sup>+\<^sup>1\<close>.
\<close>

definition ilog2 :: "rat \<Rightarrow> int" where
  "ilog2 x = (if 1 \<le> \<bar>x\<bar> then bitlen \<lfloor>\<bar>x\<bar>\<rfloor> - 1 else - bitlen (\<lceil>1 / \<bar>x\<bar>\<rceil> - 1))"

definition round_even :: "rat \<Rightarrow> int" where
  "round_even y = (let f = \<lfloor>y\<rfloor>; d = y - of_int f in
     if d < 1 / 2 then f else if 1 / 2 < d then f + 1 else if even f then f else f + 1)"

definition f64 :: "rat \<Rightarrow> rat" where
  "f64 x = (if x = 0 then 0 else
     let sc = 2 powi (52 - ilog2 x) in sgn x * of_int (round_even (\<bar>x\<bar> * sc)) / sc)"

definition fadd :: "rat \<Rightarrow> rat \<Rightarrow> rat" where "fadd a b = f64 (a + b)"
definition fsub :: "rat \<Rightarrow> rat \<Rightarrow> rat" where "fsub a b = f64 (a - b)"
definition fmul :: "rat \<Rightarrow> rat \<Rightarrow> rat" where "fmul a b = f64 (a * b)"
definition fdiv :: "rat \<Rightarrow> rat \<Rightarrow> rat" where "fdiv a b = f64 (a / b)"

text \<open>\<^verbatim>\<open>float64(b)\<close> for a byte is exact; \<^verbatim>\<open>byte(f)\<close> truncates towards zero.\<close>

definition of_byte :: "byte \<Rightarrow> rat" where
  "of_byte b = of_nat (unat b)"

definition to_byte :: "rat \<Rightarrow> byte" where
  "to_byte x = word_of_int (if 0 \<le> x then \<lfloor>x\<rfloor> else \<lceil>x\<rceil>)"

section \<open>Per-pixel blending\<close>

text \<open>
  \<^verbatim>\<open>alphaBlend\<close> of \<^verbatim>\<open>internal/server/server.go\<close>; \<^verbatim>\<open>AlphaBlend\<close> of package tile has the same body.
\<close>

definition alphaBlend :: "pixel \<Rightarrow> pixel \<Rightarrow> pixel" where
  "alphaBlend src dst = (case src of (s0, s1, s2, s3) \<Rightarrow> case dst of (d0, d1, d2, d3) \<Rightarrow>
     let a_s = fdiv (of_byte s3) 255;
         r_s = fmul (fdiv (of_byte s0) 255) a_s;
         g_s = fmul (fdiv (of_byte s1) 255) a_s;
         b_s = fmul (fdiv (of_byte s2) 255) a_s;
         a_d = fdiv (of_byte d3) 255;
         r_d = fmul (fdiv (of_byte d0) 255) a_d;
         g_d = fmul (fdiv (of_byte d1) 255) a_d;
         b_d = fmul (fdiv (of_byte d2) 255) a_d;
         a_r = fadd (fmul a_s (fsub 1 a_d)) a_d;
         r_r = fadd (fmul r_s (fsub 1 a_d)) r_d;
         g_r = fadd (fmul g_s (fsub 1 a_d)) g_d;
         b_r = fadd (fmul b_s (fsub 1 a_d)) b_d
     in if 0 < a_r
        then (to_byte (fmul (fdiv r_r a_r) 255),
              to_byte (fmul (fdiv g_r a_r) 255),
              to_byte (fmul (fdiv b_r a_r) 255),
              to_byte (fmul a_r 255))
        else (0, 0, 0, 0))"

section \<open>Copying a tile into the canvas\<close>

text \<open>
  An index expression or a slice expression out of range panics in Go; \<open>None\<close> is that panic.
  \<open>get4\<close> reads the four bytes \<^verbatim>\<open>b[i], b[i+1], b[i+2], b[i+3]\<close>, \<open>put4\<close> is
  \<^verbatim>\<open>copy(b[i:i+4], p[:])\<close>.
\<close>

definition getb :: "byte list \<Rightarrow> int \<Rightarrow> byte option" where
  "getb b i = (if 0 \<le> i \<and> i < int (length b) then Some (b ! nat i) else None)"

definition get4 :: "byte list \<Rightarrow> int \<Rightarrow> pixel option" where
  "get4 b i = (if 0 \<le> i \<and> i + 3 < int (length b)
     then Some (b ! nat i, b ! nat (i + 1), b ! nat (i + 2), b ! nat (i + 3)) else None)"

definition put4 :: "byte list \<Rightarrow> int \<Rightarrow> pixel \<Rightarrow> byte list option" where
  "put4 b i p = (case p of (p0, p1, p2, p3) \<Rightarrow>
     if 0 \<le> i \<and> i + 3 < int (length b)
     then Some (b[nat i := p0, nat (i + 1) := p1, nat (i + 2) := p2, nat (i + 3) := p3])
     else None)"

text \<open>A \<^verbatim>\<open>for\<close> loop over the indices \<open>is\<close> whose body may panic.\<close>

fun for_loop :: "('i \<Rightarrow> 's \<Rightarrow> 's option) \<Rightarrow> 'i list \<Rightarrow> 's \<Rightarrow> 's option" where
  "for_loop body [] s = Some s"
| "for_loop body (i # is) s = (case body i s of None \<Rightarrow> None | Some s' \<Rightarrow> for_loop body is s')"

text \<open>
  The body of the two nested loops of \<^verbatim>\<open>copyTileToBuffer\<close> for the source pixel \<open>(x, y)\<close>;
  \<open>cwidth\<close> and \<open>cheight\<close> are its parameters \<^verbatim>\<open>width\<close> and \<^verbatim>\<open>height\<close>, the canvas size.
\<close>

definition copyPixel :: "ImageData \<Rightarrow> int \<Rightarrow> int \<Rightarrow> int \<Rightarrow> int \<Rightarrow> int \<Rightarrow> int \<Rightarrow> byte list \<Rightarrow> byte list option" where
  "copyPixel img xoff yoff cwidth cheight y x b =
     (let xd = x + xoff; yd = y + yoff in
      if xd < 0 \<or> yd < 0 \<or> xd \<ge> cwidth \<or> yd \<ge> cheight then Some b
      else let srcIdx = (y * width img + x) * 4; dstIdx = (yd * cwidth + xd) * 4 in
        case get4 (buf img) srcIdx of None \<Rightarrow> None
        | Some src \<Rightarrow> (case get4 b dstIdx of None \<Rightarrow> None
            | Some dst \<Rightarrow> put4 b dstIdx (alphaBlend src dst)))"

definition copyTileToBuffer :: "ImageData \<Rightarrow> byte list \<Rightarrow> int \<Rightarrow> int \<Rightarrow> int \<Rightarrow> int \<Rightarrow> byte list option" where
  "copyTileToBuffer img b xoff yoff cwidth cheight =
     for_loop (\<lambda>y. for_loop (copyPixel img xoff yoff cwidth cheight y) [0 .. width img - 1])
       [0 .. height img - 1] b"

text \<open>
  The copy loop written inline in \<^verbatim>\<open>stitch\<close> of \<^verbatim>\<open>internal/stitch/stitcher.go\<close>: the same
  bounds test, then one of three writes chosen by the channel count of the tile.
\<close>

definition stitchPixel :: "ImageData \<Rightarrow> int \<Rightarrow> int \<Rightarrow> int \<Rightarrow> int \<Rightarrow> int \<Rightarrow> int \<Rightarrow> byte list \<Rightarrow> byte list option" where
  "stitchPixel img xoff yoff outputWidth outputHeight y x b =
     (let xd = x + xoff; yd = y + yoff in
      if xd < 0 \<or> yd < 0 \<or> xd \<ge> outputWidth \<or> yd \<ge> outputHeight then Some b
      else let srcIdx = (y * width img + x) * 4; dstIdx = (yd * outputWidth + xd) * 4 in
        if depth img = 4 then
          (case get4 (buf img) srcIdx of None \<Rightarrow> None
           | Some src \<Rightarrow> (case get4 b dstIdx of None \<Rightarrow> None
               | Some dst \<Rightarrow> put4 b dstIdx (alphaBlend src dst)))
        else if depth img = 3 then
          (case getb (buf img) srcIdx of None \<Rightarrow> None
           | Some r \<Rightarrow> (case getb (buf img) (srcIdx + 1) of None \<Rightarrow> None
           | Some g \<Rightarrow> (case getb (buf img) (srcIdx + 2) of None \<Rightarrow> None
           | Some bl \<Rightarrow> put4 b dstIdx (r, g, bl, 255))))
        else
          (case getb (buf img) srcIdx of None \<Rightarrow> None
           | Some val \<Rightarrow> put4 b dstIdx (val, val, val, 255)))"

definition stitchCopy :: "ImageData \<Rightarrow> byte list \<Rightarrow> int \<Rightarrow> int \<Rightarrow> int \<Rightarrow> int \<Rightarrow> byte list option" where
  "stitchCopy img b xoff yoff outputWidth outputHeight =
     for_loop (\<lambda>y. for_loop (stitchPixel img xoff yoff outputWidth outputHeight y) [0 .. width img - 1])
       [0 .. height img - 1] b"

text \<open>The canvas pixel at column \<open>px\<close>, row \<open>py\<close> of a buffer that is \<open>cwidth\<close> pixels wide.\<close>

definition pixelAt :: "byte list \<Rightarrow> int \<Rightarrow> int \<Rightarrow> int \<Rightarrow> pixel" where
  "pixelAt b cwidth px py = (let i = nat ((py * cwidth + px) * 4) in (b ! i, b ! (i + 1), b ! (i + 2), b ! (i + 3)))"

definition inCanvas :: "int \<Rightarrow> int \<Rightarrow> int \<Rightarrow> int \<Rightarrow> bool" where
  "inCanvas cwidth cheight px py = (0 \<le> px \<and> px < cwidth \<and> 0 \<le> py \<and> py < cheight)"

definition inTile :: "ImageData \<Rightarrow> int \<Rightarrow> int \<Rightarrow> int \<Rightarrow> int \<Rightarrow> bool" where
  "inTile img xoff yoff px py =
     (xoff \<le> px \<and> px < xoff + width img \<and> yoff \<le> py \<and> py < yoff + height img)"

definition wfImage :: "ImageData \<Rightarrow> bool" where
  "wfImage img = (0 \<le> width img \<and> 0 \<le> height img \<and> int (length (buf img)) = width img * height img * 4)"

definition wfCanvas :: "byte list \<Rightarrow> int \<Rightarrow> int \<Rightarrow> bool" where
  "wfCanvas b cwidth cheight = (0 \<le> cwidth \<and> 0 \<le> cheight \<and> int (length b) = cwidth * cheight * 4)"

text \<open>What a placement writes at the canvas pixel that the source pixel \<open>(x, y)\<close> lands on.\<close>

definition copyNew :: "ImageData \<Rightarrow> int \<Rightarrow> int \<Rightarrow> pixel \<Rightarrow> pixel" where
  "copyNew img x y old = alphaBlend (pixelAt (buf img) (width img) x y) old"

definition stitchNew :: "ImageData \<Rightarrow> int \<Rightarrow> int \<Rightarrow> pixel \<Rightarrow> pixel" where
  "stitchNew img x y old = (case pixelAt (buf img) (width img) x y of (r, g, bl, a) \<Rightarrow>
     if depth img = 4 then alphaBlend (r, g, bl, a) old
     else if depth img = 3 then (r, g, bl, 255)
     else (r, r, r, 255))"

section \<open>Loops over disjoint cells\<close>



lemma for_loop_cells:
  fixes view :: "'s \<Rightarrow> 'c \<Rightarrow> 'v"
  assumes step: "\<And>i s. i \<in> set is \<Longrightarrow> I s \<Longrightarrow>
      \<exists>s'. body i s = Some s' \<and> I s' \<and> (\<forall>c. view s' c = (if c \<in> T i then G c (view s c) else view s c))"
    and disj: "\<And>i j. i \<in> set is \<Longrightarrow> j \<in> set is \<Longrightarrow> i \<noteq> j \<Longrightarrow> T i \<inter> T j = {}"
    and dist: "distinct is"
    and inv0: "I s"
  shows "\<exists>s'. for_loop body is s = Some s' \<and> I s' \<and>
      (\<forall>c. view s' c = (if c \<in> (\<Union>i\<in>set is. T i) then G c (view s c) else view s c))"
  using assms
proof (induction "is" arbitrary: s)
  case Nil
  then show ?case by simp
next
  case (Cons i "is")
  from Cons.prems(1)[of i s] Cons.prems(4)
  obtain s1 where s1: "body i s = Some s1" "I s1"
    "\<forall>c. view s1 c = (if c \<in> T i then G c (view s c) else view s c)"
    by auto
  have "\<exists>s'. for_loop body is s1 = Some s' \<and> I s' \<and>
      (\<forall>c. view s' c = (if c \<in> (\<Union>i\<in>set is. T i) then G c (view s1 c) else view s1 c))"
  proof (rule Cons.IH)
    show "\<And>j s. j \<in> set is \<Longrightarrow> I s \<Longrightarrow>
      \<exists>s'. body j s = Some s' \<and> I s' \<and> (\<forall>c. view s' c = (if c \<in> T j then G c (view s c) else view s c))"
      using Cons.prems(1) by simp
    show "\<And>j k. j \<in> set is \<Longrightarrow> k \<in> set is \<Longrightarrow> j \<noteq> k \<Longrightarrow> T j \<inter> T k = {}"
      using Cons.prems(2) by simp
    show "distinct is" using Cons.prems(3) by simp
    show "I s1" by (rule s1(2))
  qed
  then obtain s' where s': "for_loop body is s1 = Some s'" "I s'"
    "\<forall>c. view s' c = (if c \<in> (\<Union>i\<in>set is. T i) then G c (view s1 c) else view s1 c)"
    by auto
  have sep: "\<And>c j. c \<in> T i \<Longrightarrow> j \<in> set is \<Longrightarrow> c \<notin> T j"
  proof -
    fix c j assume c: "c \<in> T i" and j: "j \<in> set is"
    have "i \<noteq> j" using Cons.prems(3) j by auto
    then have "T i \<inter> T j = {}" using Cons.prems(2)[of i j] j by simp
    then show "c \<notin> T j" using c by auto
  qed
  have "\<forall>c. view s' c = (if c \<in> (\<Union>i\<in>set (i # is). T i) then G c (view s c) else view s c)"
  proof
    fix c
    show "view s' c = (if c \<in> (\<Union>i\<in>set (i # is). T i) then G c (view s c) else view s c)"
    proof (cases "c \<in> T i")
      case True
      then have "c \<notin> (\<Union>i\<in>set is. T i)" using sep by auto
      then show ?thesis using s'(3) s1(3) True by simp
    next
      case False
      then show ?thesis using s'(3) s1(3) by simp
    qed
  qed
  then show ?case using s1(1) s'(1) s'(2) by simp
qed



lemma cell_index_bound:
  fixes px py cw ch :: int
  assumes "0 \<le> px" "px < cw" "0 \<le> py" "py < ch"
  shows "0 \<le> py * cw + px" and "py * cw + px < cw * ch"
proof -
  have cw: "0 \<le> cw" using assms by simp
  show "0 \<le> py * cw + px" using assms cw by (simp add: mult_nonneg_nonneg)
  have "py + 1 \<le> ch" using assms by simp
  then have "(py + 1) * cw \<le> ch * cw" using cw by (intro mult_right_mono) auto
  then show "py * cw + px < cw * ch" using assms by (simp add: algebra_simps)
qed

lemma cell_index_inj:
  fixes px py qx qy cw :: int
  assumes "0 \<le> px" "px < cw" "0 \<le> qx" "qx < cw" "py * cw + px = qy * cw + qx"
  shows "px = qx \<and> py = qy"
proof -
  have "(py * cw + px) div cw = py" using assms(1,2)
    by (simp add: div_pos_pos_trivial)
  moreover have "(qy * cw + qx) div cw = qy" using assms(3,4)
    by (simp add: div_pos_pos_trivial)
  ultimately have "py = qy" using assms(5) by simp
  then show ?thesis using assms(5) by simp
qed

lemma put4_at:
  assumes "0 \<le> k" "k + 3 < int (length b)"
  shows "put4 b k (p0, p1, p2, p3) = Some (b[nat k := p0, nat k + 1 := p1, nat k + 2 := p2, nat k + 3 := p3])"
  using assms by (simp add: put4_def nat_add_distrib)

lemma get4_at:
  assumes "0 \<le> k" "k + 3 < int (length b)"
  shows "get4 b k = Some (b ! nat k, b ! (nat k + 1), b ! (nat k + 2), b ! (nat k + 3))"
  using assms by (simp add: get4_def nat_add_distrib)

lemma pixelAt_alt:
  assumes "0 \<le> py * cw + px"
  shows "pixelAt b cw px py = (b ! (4 * nat (py * cw + px)), b ! (4 * nat (py * cw + px) + 1),
      b ! (4 * nat (py * cw + px) + 2), b ! (4 * nat (py * cw + px) + 3))"
proof -
  have "nat ((py * cw + px) * 4) = 4 * nat (py * cw + px)" using assms by (simp add: nat_mult_distrib)
  then show ?thesis unfolding pixelAt_def Let_def by simp
qed

lemma get4_pixelAt:
  assumes "0 \<le> x" "x < w" "0 \<le> y" "y < h" "int (length b) = w * h * 4"
  shows "get4 b ((y * w + x) * 4) = Some (pixelAt b w x y)"
proof -
  have nb: "0 \<le> y * w + x" "y * w + x < w * h" using cell_index_bound[OF assms(1-4)] by auto
  have "nat ((y * w + x) * 4) = 4 * nat (y * w + x)" using nb by (simp add: nat_mult_distrib)
  moreover have "0 \<le> (y * w + x) * 4" "(y * w + x) * 4 + 3 < int (length b)"
    using nb assms(5) by auto
  ultimately show ?thesis using pixelAt_alt[OF nb(1), of b] get4_at[of "(y * w + x) * 4" b]
    by simp
qed

lemma put4_pixelAt:
  assumes "inCanvas cw ch xd yd" "wfCanvas b cw ch"
  shows "\<exists>b'. put4 b ((yd * cw + xd) * 4) p = Some b' \<and> wfCanvas b' cw ch \<and>
     (\<forall>px py. inCanvas cw ch px py \<longrightarrow>
        pixelAt b' cw px py = (if px = xd \<and> py = yd then p else pixelAt b cw px py))"
proof -
  obtain p0 p1 p2 p3 where p: "p = (p0, p1, p2, p3)" by (cases p) auto
  have d: "0 \<le> xd" "xd < cw" "0 \<le> yd" "yd < ch" using assms(1) by (auto simp: inCanvas_def)
  have len: "int (length b) = cw * ch * 4" using assms(2) by (simp add: wfCanvas_def)
  define n where "n = nat (yd * cw + xd)"
  have nb: "0 \<le> yd * cw + xd" "yd * cw + xd < cw * ch" using cell_index_bound[OF d] by auto
  have n4: "4 * n + 3 < length b" using nb len by (simp add: n_def)
  have k: "nat ((yd * cw + xd) * 4) = 4 * n" using nb by (simp add: n_def nat_mult_distrib)
  have kb: "0 \<le> (yd * cw + xd) * 4" "(yd * cw + xd) * 4 + 3 < int (length b)" using nb len by auto
  define b' where "b' = b[4 * n := p0, 4 * n + 1 := p1, 4 * n + 2 := p2, 4 * n + 3 := p3]"
  have put: "put4 b ((yd * cw + xd) * 4) p = Some b'"
    unfolding p b'_def using put4_at[OF kb, of p0 p1 p2 p3] k by simp
  have wf: "wfCanvas b' cw ch" using assms(2) by (simp add: wfCanvas_def b'_def)
  have px: "pixelAt b' cw px py = (if px = xd \<and> py = yd then p else pixelAt b cw px py)"
    if c: "inCanvas cw ch px py" for px py
  proof -
    have q: "0 \<le> px" "px < cw" "0 \<le> py" "py < ch" using c by (auto simp: inCanvas_def)
    define m where "m = nat (py * cw + px)"
    have mb: "0 \<le> py * cw + px" "py * cw + px < cw * ch" using cell_index_bound[OF q] by auto
    have m4: "4 * m + 3 < length b" using mb len by (simp add: m_def)
    show ?thesis
    proof (cases "px = xd \<and> py = yd")
      case True
      then have "m = n" by (simp add: m_def n_def)
      then show ?thesis using True n4 unfolding pixelAt_alt[OF mb(1)] m_def[symmetric]
        by (simp add: b'_def p)
    next
      case False
      have "py * cw + px \<noteq> yd * cw + xd" using cell_index_inj[OF q(1,2) d(1,2)] False by blast
      then have "m \<noteq> n" using mb nb by (simp add: m_def n_def)
      then have "pixelAt b' cw px py = pixelAt b cw px py"
        unfolding pixelAt_alt[OF mb(1)] m_def[symmetric] by (simp add: b'_def)
      then show ?thesis using False by auto
    qed
  qed
  show ?thesis using put wf px by blast
qed




lemma tile_loops_char:
  assumes step: "\<And>x y b. 0 \<le> x \<Longrightarrow> x < tw \<Longrightarrow> 0 \<le> y \<Longrightarrow> y < th \<Longrightarrow> wfCanvas b cw ch \<Longrightarrow>
      \<exists>b'. stepf y x b = Some b' \<and> wfCanvas b' cw ch \<and>
        (\<forall>px py. inCanvas cw ch px py \<longrightarrow> pixelAt b' cw px py =
           (if px = x + xoff \<and> py = y + yoff then newpx x y (pixelAt b cw px py) else pixelAt b cw px py))"
    and wf: "wfCanvas b cw ch"
  shows "\<exists>b'. for_loop (\<lambda>y. for_loop (stepf y) [0 .. tw - 1]) [0 .. th - 1] b = Some b' \<and> wfCanvas b' cw ch \<and>
      (\<forall>px py. inCanvas cw ch px py \<longrightarrow> pixelAt b' cw px py =
         (if xoff \<le> px \<and> px < xoff + tw \<and> yoff \<le> py \<and> py < yoff + th
          then newpx (px - xoff) (py - yoff) (pixelAt b cw px py) else pixelAt b cw px py))"
proof -
  define view :: "byte list \<Rightarrow> int \<times> int \<Rightarrow> pixel" where
    "view = (\<lambda>s c. if inCanvas cw ch (fst c) (snd c) then pixelAt s cw (fst c) (snd c) else (0, 0, 0, 0))"
  define G :: "int \<times> int \<Rightarrow> pixel \<Rightarrow> pixel" where
    "G = (\<lambda>c v. newpx (fst c - xoff) (snd c - yoff) v)"
  define Tx :: "int \<Rightarrow> int \<Rightarrow> (int \<times> int) set" where
    "Tx = (\<lambda>y x. {c. c = (x + xoff, y + yoff) \<and> inCanvas cw ch (fst c) (snd c)})"
  define Ty :: "int \<Rightarrow> (int \<times> int) set" where
    "Ty = (\<lambda>y. {c. snd c = y + yoff \<and> xoff \<le> fst c \<and> fst c < xoff + tw \<and> inCanvas cw ch (fst c) (snd c)})"
  have inner: "\<exists>s'. for_loop (stepf y) [0 .. tw - 1] s = Some s' \<and> wfCanvas s' cw ch \<and>
      (\<forall>c. view s' c = (if c \<in> Ty y then G c (view s c) else view s c))"
    if y: "y \<in> set [0 .. th - 1]" and s: "wfCanvas s cw ch" for y s
  proof -
    have A: "\<exists>s'. for_loop (stepf y) [0 .. tw - 1] s = Some s' \<and> wfCanvas s' cw ch \<and>
      (\<forall>c. view s' c = (if c \<in> (\<Union>x\<in>set [0 .. tw - 1]. Tx y x) then G c (view s c) else view s c))"
    proof (rule for_loop_cells[where I = "\<lambda>s. wfCanvas s cw ch"])
      fix x s0 assume x: "x \<in> set [0 .. tw - 1]" and s0: "wfCanvas s0 cw ch"
      from step[of x y s0] x y s0 obtain s1 where s1: "stepf y x s0 = Some s1" "wfCanvas s1 cw ch"
        "\<forall>px py. inCanvas cw ch px py \<longrightarrow> pixelAt s1 cw px py =
           (if px = x + xoff \<and> py = y + yoff then newpx x y (pixelAt s0 cw px py) else pixelAt s0 cw px py)"
        by auto
      have "\<forall>c. view s1 c = (if c \<in> Tx y x then G c (view s0 c) else view s0 c)"
        using s1(3) by (auto simp: view_def Tx_def G_def)
      then show "\<exists>s'. stepf y x s0 = Some s' \<and> wfCanvas s' cw ch \<and>
         (\<forall>c. view s' c = (if c \<in> Tx y x then G c (view s0 c) else view s0 c))"
        using s1(1,2) by blast
    next
      fix i j :: int assume "i \<noteq> j"
      then show "Tx y i \<inter> Tx y j = {}" by (auto simp: Tx_def)
    next
      show "distinct [0 .. tw - 1]" by simp
    next
      show "wfCanvas s cw ch" by (rule s)
    qed
    have B: "(\<Union>x\<in>set [0 .. tw - 1]. Tx y x) = Ty y"
    proof (rule set_eqI)
      fix c :: "int \<times> int"
      show "c \<in> (\<Union>x\<in>set [0 .. tw - 1]. Tx y x) \<longleftrightarrow> c \<in> Ty y"
      proof
        assume "c \<in> (\<Union>x\<in>set [0 .. tw - 1]. Tx y x)"
        then show "c \<in> Ty y" by (auto simp: Tx_def Ty_def)
      next
        assume "c \<in> Ty y"
        then have "fst c - xoff \<in> set [0 .. tw - 1]" "c \<in> Tx y (fst c - xoff)"
          by (auto simp: Ty_def Tx_def prod_eq_iff)
        then show "c \<in> (\<Union>x\<in>set [0 .. tw - 1]. Tx y x)" by blast
      qed
    qed
    show ?thesis using A unfolding B .
  qed
  have "\<exists>s'. for_loop (\<lambda>y. for_loop (stepf y) [0 .. tw - 1]) [0 .. th - 1] b = Some s' \<and> wfCanvas s' cw ch \<and>
      (\<forall>c. view s' c = (if c \<in> (\<Union>y\<in>set [0 .. th - 1]. Ty y) then G c (view b c) else view b c))"
  proof (rule for_loop_cells[where I = "\<lambda>s. wfCanvas s cw ch"])
    fix y s assume "y \<in> set [0 .. th - 1]" "wfCanvas s cw ch"
    then show "\<exists>s'. for_loop (stepf y) [0 .. tw - 1] s = Some s' \<and> wfCanvas s' cw ch \<and>
      (\<forall>c. view s' c = (if c \<in> Ty y then G c (view s c) else view s c))"
      by (rule inner)
  next
    fix i j :: int assume "i \<noteq> j"
    then show "Ty i \<inter> Ty j = {}" by (auto simp: Ty_def)
  next
    show "distinct [0 .. th - 1]" by simp
  next
    show "wfCanvas b cw ch" by (rule wf)
  qed
  then obtain b' where b': "for_loop (\<lambda>y. for_loop (stepf y) [0 .. tw - 1]) [0 .. th - 1] b = Some b'"
    "wfCanvas b' cw ch"
    "\<forall>c. view b' c = (if c \<in> (\<Union>y\<in>set [0 .. th - 1]. Ty y) then G c (view b c) else view b c)"
    by auto
  have "pixelAt b' cw px py =
         (if xoff \<le> px \<and> px < xoff + tw \<and> yoff \<le> py \<and> py < yoff + th
          then newpx (px - xoff) (py - yoff) (pixelAt b cw px py) else pixelAt b cw px py)"
    if c: "inCanvas cw ch px py" for px py
  proof -
    have mem: "(px, py) \<in> (\<Union>y\<in>set [0 .. th - 1]. Ty y) \<longleftrightarrow>
        xoff \<le> px \<and> px < xoff + tw \<and> yoff \<le> py \<and> py < yoff + th"
    proof
      assume "(px, py) \<in> (\<Union>y\<in>set [0 .. th - 1]. Ty y)"
      then show "xoff \<le> px \<and> px < xoff + tw \<and> yoff \<le> py \<and> py < yoff + th"
        by (auto simp: Ty_def)
    next
      assume a: "xoff \<le> px \<and> px < xoff + tw \<and> yoff \<le> py \<and> py < yoff + th"
      then have "py - yoff \<in> set [0 .. th - 1]" "(px, py) \<in> Ty (py - yoff)"
        using c by (auto simp: Ty_def)
      then show "(px, py) \<in> (\<Union>y\<in>set [0 .. th - 1]. Ty y)" by blast
    qed
    from b'(3) have "view b' (px, py) =
       (if (px, py) \<in> (\<Union>y\<in>set [0 .. th - 1]. Ty y) then G (px, py) (view b (px, py)) else view b (px, py))"
      by blast
    then show ?thesis using c unfolding mem by (simp add: view_def G_def)
  qed
  then show ?thesis using b'(1,2) by blast
qed


lemma getb_at:
  assumes "0 \<le> k" "k < int (length b)"
  shows "getb b k = Some (b ! nat k)"
  using assms by (simp add: getb_def)

lemma getb_off:
  assumes "0 \<le> k" "k + int j < int (length b)"
  shows "getb b (k + int j) = Some (b ! (nat k + j))"
  using assms by (simp add: getb_def nat_add_distrib)

lemma src_reads:
  assumes "wfImage img" "0 \<le> x" "x < width img" "0 \<le> y" "y < height img"
  shows "get4 (buf img) ((y * width img + x) * 4) = Some (pixelAt (buf img) (width img) x y)"
    and "pixelAt (buf img) (width img) x y = (r, g, bl, a) \<Longrightarrow>
         getb (buf img) ((y * width img + x) * 4) = Some r \<and>
         getb (buf img) ((y * width img + x) * 4 + 1) = Some g \<and>
         getb (buf img) ((y * width img + x) * 4 + 2) = Some bl"
proof -
  have len: "int (length (buf img)) = width img * height img * 4"
    using assms(1) by (simp add: wfImage_def)
  show "get4 (buf img) ((y * width img + x) * 4) = Some (pixelAt (buf img) (width img) x y)"
    by (rule get4_pixelAt[OF assms(2-5) len])
  have nb: "0 \<le> y * width img + x" "y * width img + x < width img * height img"
    using cell_index_bound[OF assms(2-5)] by auto
  define k where "k = (y * width img + x) * 4"
  have k: "nat k = 4 * nat (y * width img + x)" "0 \<le> k" "k + 3 < int (length (buf img))"
    using nb len by (simp_all add: k_def nat_mult_distrib)
  have g0: "getb (buf img) k = Some (buf img ! (nat k))"
    using getb_off[of k 0 "buf img"] k by simp
  have g1: "getb (buf img) (k + 1) = Some (buf img ! (nat k + 1))"
    using getb_off[of k 1 "buf img"] k by simp
  have g2: "getb (buf img) (k + 2) = Some (buf img ! (nat k + 2))"
    using getb_off[of k 2 "buf img"] k by simp
  assume "pixelAt (buf img) (width img) x y = (r, g, bl, a)"
  then have "buf img ! (nat k) = r" "buf img ! (nat k + 1) = g" "buf img ! (nat k + 2) = bl"
    unfolding pixelAt_alt[OF nb(1)] k(1) by simp_all
  then show "getb (buf img) ((y * width img + x) * 4) = Some r \<and>
         getb (buf img) ((y * width img + x) * 4 + 1) = Some g \<and>
         getb (buf img) ((y * width img + x) * 4 + 2) = Some bl"
    using g0 g1 g2 unfolding k_def by simp
qed

lemma skip_step:
  assumes "\<not> inCanvas cw ch (x + xoff) (y + yoff)" "wfCanvas b cw ch"
  shows "wfCanvas b cw ch \<and> (\<forall>px py. inCanvas cw ch px py \<longrightarrow> pixelAt b cw px py =
       (if px = x + xoff \<and> py = y + yoff then newpx (pixelAt b cw px py) else pixelAt b cw px py))"
  using assms by auto

lemma copyPixel_step:
  assumes img: "wfImage img" and x: "0 \<le> x" "x < width img" and y: "0 \<le> y" "y < height img"
    and wf: "wfCanvas b cw ch"
  shows "\<exists>b'. copyPixel img xoff yoff cw ch y x b = Some b' \<and> wfCanvas b' cw ch \<and>
     (\<forall>px py. inCanvas cw ch px py \<longrightarrow> pixelAt b' cw px py =
        (if px = x + xoff \<and> py = y + yoff then copyNew img x y (pixelAt b cw px py) else pixelAt b cw px py))"
proof (cases "inCanvas cw ch (x + xoff) (y + yoff)")
  case False
  then have "copyPixel img xoff yoff cw ch y x b = Some b"
    by (auto simp: copyPixel_def inCanvas_def Let_def)
  then show ?thesis using skip_step[OF False wf] by simp
next
  case True
  then have d: "0 \<le> x + xoff" "x + xoff < cw" "0 \<le> y + yoff" "y + yoff < ch"
    by (auto simp: inCanvas_def)
  have len: "int (length b) = cw * ch * 4" using wf by (simp add: wfCanvas_def)
  have src: "get4 (buf img) ((y * width img + x) * 4) = Some (pixelAt (buf img) (width img) x y)"
    by (rule src_reads(1)[OF img x y])
  have dst: "get4 b (((y + yoff) * cw + (x + xoff)) * 4) = Some (pixelAt b cw (x + xoff) (y + yoff))"
    by (rule get4_pixelAt[OF d len])
  have run: "copyPixel img xoff yoff cw ch y x b =
      put4 b (((y + yoff) * cw + (x + xoff)) * 4) (copyNew img x y (pixelAt b cw (x + xoff) (y + yoff)))"
    using d src dst by (simp add: copyPixel_def Let_def copyNew_def)
  from put4_pixelAt[OF True wf, of "copyNew img x y (pixelAt b cw (x + xoff) (y + yoff))"]
  obtain b' where b': "put4 b (((y + yoff) * cw + (x + xoff)) * 4)
        (copyNew img x y (pixelAt b cw (x + xoff) (y + yoff))) = Some b'"
    "wfCanvas b' cw ch"
    "\<forall>px py. inCanvas cw ch px py \<longrightarrow> pixelAt b' cw px py =
        (if px = x + xoff \<and> py = y + yoff then copyNew img x y (pixelAt b cw (x + xoff) (y + yoff))
         else pixelAt b cw px py)"
    by auto
  have "\<forall>px py. inCanvas cw ch px py \<longrightarrow> pixelAt b' cw px py =
        (if px = x + xoff \<and> py = y + yoff then copyNew img x y (pixelAt b cw px py) else pixelAt b cw px py)"
    using b'(3) by auto
  then show ?thesis using run b'(1,2) by simp
qed

lemma stitchPixel_step:
  assumes img: "wfImage img" and x: "0 \<le> x" "x < width img" and y: "0 \<le> y" "y < height img"
    and wf: "wfCanvas b cw ch"
  shows "\<exists>b'. stitchPixel img xoff yoff cw ch y x b = Some b' \<and> wfCanvas b' cw ch \<and>
     (\<forall>px py. inCanvas cw ch px py \<longrightarrow> pixelAt b' cw px py =
        (if px = x + xoff \<and> py = y + yoff then stitchNew img x y (pixelAt b cw px py) else pixelAt b cw px py))"
proof (cases "inCanvas cw ch (x + xoff) (y + yoff)")
  case False
  then have "stitchPixel img xoff yoff cw ch y x b = Some b"
    by (auto simp: stitchPixel_def inCanvas_def Let_def)
  then show ?thesis using skip_step[OF False wf] by simp
next
  case True
  then have d: "0 \<le> x + xoff" "x + xoff < cw" "0 \<le> y + yoff" "y + yoff < ch"
    by (auto simp: inCanvas_def)
  have len: "int (length b) = cw * ch * 4" using wf by (simp add: wfCanvas_def)
  obtain r g bl a where px: "pixelAt (buf img) (width img) x y = (r, g, bl, a)"
    by (cases "pixelAt (buf img) (width img) x y") auto
  have src: "get4 (buf img) ((y * width img + x) * 4) = Some (r, g, bl, a)"
    using src_reads(1)[OF img x y] px by simp
  have srcb: "getb (buf img) ((y * width img + x) * 4) = Some r"
    "getb (buf img) ((y * width img + x) * 4 + 1) = Some g"
    "getb (buf img) ((y * width img + x) * 4 + 2) = Some bl"
    using src_reads(2)[OF img x y px] by auto
  have dst: "get4 b (((y + yoff) * cw + (x + xoff)) * 4) = Some (pixelAt b cw (x + xoff) (y + yoff))"
    by (rule get4_pixelAt[OF d len])
  have run: "stitchPixel img xoff yoff cw ch y x b =
      put4 b (((y + yoff) * cw + (x + xoff)) * 4) (stitchNew img x y (pixelAt b cw (x + xoff) (y + yoff)))"
    using d src srcb dst by (simp add: stitchPixel_def Let_def stitchNew_def px)
  from put4_pixelAt[OF True wf, of "stitchNew img x y (pixelAt b cw (x + xoff) (y + yoff))"]
  obtain b' where b': "put4 b (((y + yoff) * cw + (x + xoff)) * 4)
        (stitchNew img x y (pixelAt b cw (x + xoff) (y + yoff))) = Some b'"
    "wfCanvas b' cw ch"
    "\<forall>px py. inCanvas cw ch px py \<longrightarrow> pixelAt b' cw px py =
        (if px = x + xoff \<and> py = y + yoff then stitchNew img x y (pixelAt b cw (x + xoff) (y + yoff))
         else pixelAt b cw px py)"
    by auto
  have "\<forall>px py. inCanvas cw ch px py \<longrightarrow> pixelAt b' cw px py =
        (if px = x + xoff \<and> py = y + yoff then stitchNew img x y (pixelAt b cw px py) else pixelAt b cw px py)"
    using b'(3) by auto
  then show ?thesis using run b'(1,2) by simp
qed

lemma copyTileToBuffer_char:
  assumes img: "wfImage img" and wf: "wfCanvas b cw ch"
  shows "\<exists>b'. copyTileToBuffer img b xoff yoff cw ch = Some b' \<and> wfCanvas b' cw ch \<and>
      (\<forall>px py. inCanvas cw ch px py \<longrightarrow> pixelAt b' cw px py =
         (if inTile img xoff yoff px py
          then copyNew img (px - xoff) (py - yoff) (pixelAt b cw px py) else pixelAt b cw px py))"
  unfolding copyTileToBuffer_def inTile_def
  by (rule tile_loops_char[where newpx = "copyNew img", OF copyPixel_step[OF img] wf])

lemma stitchCopy_char:
  assumes img: "wfImage img" and wf: "wfCanvas b cw ch"
  shows "\<exists>b'. stitchCopy img b xoff yoff cw ch = Some b' \<and> wfCanvas b' cw ch \<and>
      (\<forall>px py. inCanvas cw ch px py \<longrightarrow> pixelAt b' cw px py =
         (if inTile img xoff yoff px py
          then stitchNew img (px - xoff) (py - yoff) (pixelAt b cw px py) else pixelAt b cw px py))"
  unfolding stitchCopy_def inTile_def
  by (rule tile_loops_char[where newpx = "stitchNew img", OF stitchPixel_step[OF img] wf])

section \<open>Placing a tile touches only its own rectangle\<close>

text \<open>
  Claim C10. Placing a decoded tile at any integer offsets, negative or reaching past the canvas
  edge, never indexes outside the tile buffer or the canvas buffer (the copy returns a canvas, it
  does not panic), keeps the canvas size, and leaves every canvas pixel outside the intersection
  of the tile's destination rectangle with the canvas as it was. This holds for
  \<^verbatim>\<open>copyTileToBuffer\<close> of the HTTP stitcher and for the copy loop written inline in the command
  line \<^verbatim>\<open>stitch\<close>.
\<close>

theorem tile_placement_frame:
  assumes "wfImage img" and "wfCanvas b cw ch"
  shows "(\<exists>b'. copyTileToBuffer img b xoff yoff cw ch = Some b' \<and> wfCanvas b' cw ch \<and>
            (\<forall>px py. inCanvas cw ch px py \<and> \<not> inTile img xoff yoff px py \<longrightarrow>
               pixelAt b' cw px py = pixelAt b cw px py)) \<and>
         (\<exists>b'. stitchCopy img b xoff yoff cw ch = Some b' \<and> wfCanvas b' cw ch \<and>
            (\<forall>px py. inCanvas cw ch px py \<and> \<not> inTile img xoff yoff px py \<longrightarrow>
               pixelAt b' cw px py = pixelAt b cw px py))"
proof
  from copyTileToBuffer_char[OF assms, of xoff yoff]
  show "\<exists>b'. copyTileToBuffer img b xoff yoff cw ch = Some b' \<and> wfCanvas b' cw ch \<and>
            (\<forall>px py. inCanvas cw ch px py \<and> \<not> inTile img xoff yoff px py \<longrightarrow>
               pixelAt b' cw px py = pixelAt b cw px py)"
    by auto
  from stitchCopy_char[OF assms, of xoff yoff]
  show "\<exists>b'. stitchCopy img b xoff yoff cw ch = Some b' \<and> wfCanvas b' cw ch \<and>
            (\<forall>px py. inCanvas cw ch px py \<and> \<not> inTile img xoff yoff px py \<longrightarrow>
               pixelAt b' cw px py = pixelAt b cw px py)"
    by auto
qed

text \<open>
  A two-pixel tile placed one pixel to the left of a two-pixel canvas: only canvas pixel
  \<open>(0, 0)\<close> lies in the intersection.
\<close>

theorem tile_placement_frame_witness:
  "wfImage \<lparr>buf = [1, 2, 3, 255, 5, 6, 7, 255], width = 2, height = 1, depth = 4\<rparr> \<and>
   wfCanvas [9, 9, 9, 255, 8, 8, 8, 255] 2 1 \<and>
   (\<exists>b'. copyTileToBuffer \<lparr>buf = [1, 2, 3, 255, 5, 6, 7, 255], width = 2, height = 1, depth = 4\<rparr>
            [9, 9, 9, 255, 8, 8, 8, 255] (- 1) 0 2 1 = Some b' \<and>
          pixelAt b' 2 1 0 = pixelAt [9, 9, 9, 255, 8, 8, 8, 255] 2 1 0) \<and>
   (\<exists>b'. stitchCopy \<lparr>buf = [1, 2, 3, 255, 5, 6, 7, 255], width = 2, height = 1, depth = 4\<rparr>
            [9, 9, 9, 255, 8, 8, 8, 255] (- 1) 0 2 1 = Some b' \<and>
          pixelAt b' 2 1 0 = pixelAt [9, 9, 9, 255, 8, 8, 8, 255] 2 1 0)"
proof -
  let ?img = "\<lparr>buf = [1, 2, 3, 255, 5, 6, 7, 255], width = 2, height = 1, depth = 4\<rparr>"
  let ?b = "[9, 9, 9, 255, 8, 8, 8, 255] :: byte list"
  have i: "wfImage ?img" by (simp add: wfImage_def)
  have c: "wfCanvas ?b 2 1" by (simp add: wfCanvas_def)
  have p: "inCanvas 2 1 1 0 \<and> \<not> inTile ?img (- 1) 0 1 0" by (simp add: inCanvas_def inTile_def)
  from tile_placement_frame[OF i c, of "- 1" 0] p i c show ?thesis by blast
qed

end
